theory Spec2Isabelle
  imports Complex_Main
begin

section \<open>Values of the utility library\<close>

text \<open>
  The library \<open>_\<close> works on JavaScript values. A number is an IEEE double: the comparisons
  and \<open>Math.min\<close>/\<open>Math.max\<close> never round, so a finite double is kept as the rational it
  denotes, next to \<open>NaN\<close> and the two infinities (\<open>+0\<close> and \<open>-0\<close> are one value, as they
  are for \<open>===\<close>). A string is a list of code units (ASCII is what the case mappings below
  cover). A function value is opaque and known by a name. A date is its time value, a
  whole number of milliseconds, or nothing when the date is invalid. An array is the list
  of its elements. An object is the list of its own enumerable data properties, in property
  order, together with the properties that are reachable from it without being own
  enumerable ones (the prototype chain); accessor properties are not modelled.
\<close>

datatype jsnum = NaN | NegInf | Fin rat | PosInf

datatype jsval =
    JUndef
  | JNull
  | JBool bool
  | JNum jsnum
  | JStr string
  | JFun string
  | JDate "int option"
  | JArr "jsval list"
  | JObj "(string \<times> jsval) list" "(string \<times> jsval) list"

datatype error = TypeError

text \<open>The \<open>typeof\<close> operator and \<open>Array.isArray\<close>.\<close>

fun typeof :: "jsval \<Rightarrow> string" where
  "typeof JUndef = ''undefined''"
| "typeof JNull = ''object''"
| "typeof (JBool b) = ''boolean''"
| "typeof (JNum n) = ''number''"
| "typeof (JStr s) = ''string''"
| "typeof (JFun f) = ''function''"
| "typeof (JDate t) = ''object''"
| "typeof (JArr xs) = ''object''"
| "typeof (JObj own inh) = ''object''"

fun isArray :: "jsval \<Rightarrow> bool" where
  "isArray (JArr xs) = True"
| "isArray v = False"

section \<open>Numbers\<close>

text \<open>The relational operator \<open><=\<close> on numbers: false as soon as an operand is \<open>NaN\<close>.\<close>

fun num_le :: "jsnum \<Rightarrow> jsnum \<Rightarrow> bool" where
  "num_le NaN b = False"
| "num_le a NaN = False"
| "num_le NegInf b = True"
| "num_le a PosInf = True"
| "num_le (Fin a) (Fin b) = (a \<le> b)"
| "num_le a b = False"

text \<open>\<open>Math.max\<close> and \<open>Math.min\<close> of two numbers: \<open>NaN\<close> if an argument is \<open>NaN\<close>.\<close>

definition math_max :: "jsnum \<Rightarrow> jsnum \<Rightarrow> jsnum" where
  "math_max a b = (if a = NaN \<or> b = NaN then NaN else if num_le a b then b else a)"

definition math_min :: "jsnum \<Rightarrow> jsnum \<Rightarrow> jsnum" where
  "math_min a b = (if a = NaN \<or> b = NaN then NaN else if num_le a b then a else b)"

text \<open>\<open>_.clamp = function(num, lower, upper) { return Math.min(Math.max(num, lower), upper); }\<close>\<close>

definition clamp :: "jsnum \<Rightarrow> jsnum \<Rightarrow> jsnum \<Rightarrow> jsnum" where
  "clamp num lower upper = math_min (math_max num lower) upper"

section \<open>Strings\<close>

definition is_upper :: "char \<Rightarrow> bool" where
  "is_upper c = (let n = (of_char c :: nat) in 65 \<le> n \<and> n \<le> 90)"

definition is_lower :: "char \<Rightarrow> bool" where
  "is_lower c = (let n = (of_char c :: nat) in 97 \<le> n \<and> n \<le> 122)"

definition is_digit :: "char \<Rightarrow> bool" where
  "is_digit c = (let n = (of_char c :: nat) in 48 \<le> n \<and> n \<le> 57)"

definition to_lower :: "char \<Rightarrow> char" where
  "to_lower c = (if is_upper c then char_of ((of_char c :: nat) + 32) else c)"

definition to_upper :: "char \<Rightarrow> char" where
  "to_upper c = (if is_lower c then char_of ((of_char c :: nat) - 32) else c)"

definition toLowerCase :: "string \<Rightarrow> string" where
  "toLowerCase s = map to_lower s"

definition toUpperCase :: "string \<Rightarrow> string" where
  "toUpperCase s = map to_upper s"

text \<open>The character class \<open>[a-z0-9]\<close> of the regular expression in \<open>isPalindrome\<close>.\<close>

definition lower_alnum :: "char \<Rightarrow> bool" where
  "lower_alnum c = (is_lower c \<or> is_digit c)"

text \<open>
  \<open>_.isPalindrome\<close>: a non-string is answered \<open>false\<close>; a string is lowercased, every
  code unit outside \<open>[a-z0-9]\<close> is deleted, and the rest is compared with its reverse.
\<close>

definition isPalindrome :: "jsval \<Rightarrow> error + jsval" where
  "isPalindrome str =
     (if typeof str \<noteq> ''string'' then Inr (JBool False)
      else case str of
        JStr s \<Rightarrow>
          (let t = filter lower_alnum (toLowerCase s)
           in Inr (JBool (t = rev t)))
      | _ \<Rightarrow> Inl TypeError)"



section \<open>Decimal digits\<close>

text \<open>Decimal digits of a natural number; the property key of an array index is written so.\<close>

fun show_nat :: "nat \<Rightarrow> string" where
  "show_nat n =
     (if n < 10 then [char_of (48 + n)]
      else show_nat (n div 10) @ [char_of (48 + n mod 10)])"

declare show_nat.simps [simp del]

section \<open>Slices\<close>

text \<open>
  \<open>Array.prototype.slice(start, end)\<close> (and \<open>String.prototype.slice\<close>) on integer indices: a negative index counts from
  the end, both indices are clamped to the array, and an empty range gives \<open>[]\<close>.
\<close>

definition slice :: "'a list \<Rightarrow> int \<Rightarrow> int \<Rightarrow> 'a list" where
  "slice xs start fin =
     (let n = int (length xs);
          k = (if start < 0 then max (n + start) 0 else min start n);
          f = (if fin < 0 then max (n + fin) 0 else min fin n)
      in take (nat (f - k)) (drop (nat k) xs))"

section \<open>String helpers\<close>

text \<open>\<open>!v\<close> is the negation of this: the value taken as a condition.\<close>

fun truthy :: "jsval \<Rightarrow> bool" where
  "truthy JUndef = False"
| "truthy JNull = False"
| "truthy (JBool b) = b"
| "truthy (JNum n) = (n \<noteq> NaN \<and> n \<noteq> Fin 0)"
| "truthy (JStr s) = (s \<noteq> [])"
| "truthy v = True"

text \<open>
  \<open>_.capitalize\<close>: \<open>str[0].toUpperCase() + str.slice(1).toLowerCase()\<close>, behind the guard
  \<open>typeof str !== 'string' || !str\<close>. Reading \<open>str[0]\<close> of an empty string gives
  \<open>undefined\<close>, whose method call is a \<open>TypeError\<close>.
\<close>

definition capitalize :: "jsval \<Rightarrow> error + jsval" where
  "capitalize str =
     (if typeof str \<noteq> ''string'' \<or> \<not> truthy str then Inr (JStr '''')
      else case str of
        JStr (c # cs) \<Rightarrow> Inr (JStr (toUpperCase [c] @ toLowerCase cs))
      | _ \<Rightarrow> Inl TypeError)"

text \<open>
  \<open>_.truncate(str, length = 30, suffix = '...')\<close>; an argument left out is \<open>None\<close>.
  \<open>String.prototype.slice\<close> treats its indices as the slice of arrays does.
\<close>

definition truncate :: "jsval \<Rightarrow> int option \<Rightarrow> string option \<Rightarrow> error + jsval" where
  "truncate str len suf =
     (let length = (case len of None \<Rightarrow> 30 | Some l \<Rightarrow> l);
          suffix = (case suf of None \<Rightarrow> ''...'' | Some s \<Rightarrow> s)
      in if typeof str \<noteq> ''string'' then Inr (JStr '''')
         else case str of
           JStr s \<Rightarrow>
             if int (List.length s) \<le> length then Inr (JStr s)
             else Inr (JStr (slice s 0 (length - int (List.length suffix)) @ suffix))
         | _ \<Rightarrow> Inl TypeError)"

text \<open>
  \<open>replace(/([a-z])([A-Z])/g, '$1-$2')\<close>: the matches are found from left to right and do
  not overlap; each gets a hyphen between its two letters.
\<close>

fun hyphenate :: "string \<Rightarrow> string" where
  "hyphenate (a # b # cs) =
     (if is_lower a \<and> is_upper b then a # CHR ''-'' # b # hyphenate cs
      else a # hyphenate (b # cs))"
| "hyphenate cs = cs"

text \<open>The class \<open>\<bslash>s\<close> among the code units below 256.\<close>

definition is_space :: "char \<Rightarrow> bool" where
  "is_space c = ((of_char c :: nat) \<in> {9, 10, 11, 12, 13, 32, 160})"

text \<open>\<open>replace(/\<bslash>s+/g, '-')\<close>: every maximal run of white space becomes one hyphen.\<close>

function dash_spaces :: "string \<Rightarrow> string" where
  "dash_spaces [] = []"
| "dash_spaces (c # cs) =
     (if is_space c then CHR ''-'' # dash_spaces (dropWhile is_space cs)
      else c # dash_spaces cs)"
  by pat_completeness auto

termination
  by (relation "measure length") (auto simp: length_dropWhile_le le_imp_less_Suc)

definition kebabCase :: "jsval \<Rightarrow> error + jsval" where
  "kebabCase str =
     (if typeof str \<noteq> ''string'' then Inr (JStr '''')
      else case str of
        JStr s \<Rightarrow> Inr (JStr (toLowerCase (dash_spaces (hyphenate s))))
      | _ \<Rightarrow> Inl TypeError)"

section \<open>Arrays\<close>

text \<open>
  The loop of \<open>_.chunk\<close>: \<open>for (let i = 0; i < arr.length; i += size) result.push(arr.slice(i, i + size))\<close>.
  The size is an integer (the additions are then exact), 1 when the argument is left out.
  With a size that is not positive and an array that is not empty, the index never passes
  the length and the loop does not return, which is the value \<open>None\<close>.
\<close>

partial_function (option) chunk_loop ::
  "jsval list \<Rightarrow> int \<Rightarrow> int \<Rightarrow> jsval list list \<Rightarrow> jsval list list option" where
  "chunk_loop arr sz i result =
     (if i < int (length arr)
      then chunk_loop arr sz (i + sz) (result @ [slice arr i (i + sz)])
      else Some result)"

definition chunk :: "jsval \<Rightarrow> int option \<Rightarrow> (error + jsval) option" where
  "chunk arr sz_arg =
     (let sz = (case sz_arg of None \<Rightarrow> 1 | Some n \<Rightarrow> n) in
      if \<not> isArray arr then Some (Inr (JArr []))
      else case arr of
        JArr xs \<Rightarrow> map_option (\<lambda>r. Inr (JArr (map JArr r))) (chunk_loop xs sz 0 [])
      | _ \<Rightarrow> Some (Inl TypeError))"

section \<open>Array helpers and mean\<close>

text \<open>
  Three helpers compare values as \<open>Array.prototype.includes\<close> and \<open>Set\<close> do, by
  SameValueZero. On primitives that is equality; on arrays, objects and dates it is
  identity, which a value as a tree does not show, so the comparison is a parameter
  \<open>same\<close>. The operators \<open>+\<close> and \<open>/\<close> of \<open>mean\<close> round and coerce; they are parameters too.
\<close>

fun elems :: "jsval \<Rightarrow> jsval list" where
  "elems (JArr xs) = xs"
| "elems v = []"

definition mean ::
  "(jsval \<Rightarrow> jsval \<Rightarrow> jsval) \<Rightarrow> (jsval \<Rightarrow> jsval \<Rightarrow> jsval) \<Rightarrow> jsval \<Rightarrow> error + jsval" where
  "mean add_op div_op nums =
     (if \<not> isArray nums \<or> length (elems nums) = 0 then Inr (JNum NaN)
      else case nums of
        JArr xs \<Rightarrow>
          Inr (div_op (fold (\<lambda>n sum. add_op sum n) xs (JNum (Fin 0)))
                      (JNum (Fin (of_nat (length xs)))))
      | _ \<Rightarrow> Inl TypeError)"

definition last_js :: "jsval \<Rightarrow> error + jsval" where
  "last_js arr =
     (if \<not> isArray arr \<or> length (elems arr) = 0 then Inr JUndef
      else case arr of
        JArr xs \<Rightarrow> Inr (xs ! (length xs - 1))
      | _ \<Rightarrow> Inl TypeError)"

definition includes_js :: "(jsval \<Rightarrow> jsval \<Rightarrow> bool) \<Rightarrow> jsval \<Rightarrow> jsval \<Rightarrow> error + jsval" where
  "includes_js same arr v =
     (if \<not> isArray arr then Inr (JBool False)
      else case arr of
        JArr xs \<Rightarrow> Inr (JBool (list_ex (\<lambda>x. same x v) xs))
      | _ \<Rightarrow> Inl TypeError)"

definition without ::
  "(jsval \<Rightarrow> jsval \<Rightarrow> bool) \<Rightarrow> jsval \<Rightarrow> jsval list \<Rightarrow> error + jsval" where
  "without same arr vs =
     (if \<not> isArray arr then Inr (JArr [])
      else case arr of
        JArr xs \<Rightarrow> Inr (JArr (filter (\<lambda>item. \<not> list_ex (\<lambda>x. same x item) vs) xs))
      | _ \<Rightarrow> Inl TypeError)"

text \<open>\<open>[...new Set(arr)]\<close>: a set keeps the first occurrence of each value, in order.\<close>

definition set_add :: "(jsval \<Rightarrow> jsval \<Rightarrow> bool) \<Rightarrow> jsval \<Rightarrow> jsval list \<Rightarrow> jsval list" where
  "set_add same x seen = (if list_ex (\<lambda>y. same y x) seen then seen else seen @ [x])"

definition unique :: "(jsval \<Rightarrow> jsval \<Rightarrow> bool) \<Rightarrow> jsval \<Rightarrow> error + jsval" where
  "unique same arr =
     (if \<not> isArray arr then Inr (JArr [])
      else case arr of
        JArr xs \<Rightarrow> Inr (JArr (fold (set_add same) xs []))
      | _ \<Rightarrow> Inl TypeError)"

section \<open>Objects\<close>

text \<open>
  The data properties of \<open>Object.prototype\<close>, which every object literal inherits.
\<close>

definition object_prototype :: "(string \<times> jsval) list" where
  "object_prototype =
     [(''constructor'', JFun ''Object''),
      (''hasOwnProperty'', JFun ''Object.prototype.hasOwnProperty''),
      (''isPrototypeOf'', JFun ''Object.prototype.isPrototypeOf''),
      (''propertyIsEnumerable'', JFun ''Object.prototype.propertyIsEnumerable''),
      (''toLocaleString'', JFun ''Object.prototype.toLocaleString''),
      (''toString'', JFun ''Object.prototype.toString''),
      (''valueOf'', JFun ''Object.prototype.valueOf'')]"

text \<open>The object literal \<open>{}\<close>.\<close>

definition empty_object :: jsval where
  "empty_object = JObj [] object_prototype"

text \<open>
  The assignment \<open>result[key] = value\<close> on a list of own properties: an existing property
  keeps its place and takes the value, a new one goes to the end.
\<close>

fun set_prop :: "(string \<times> jsval) list \<Rightarrow> string \<Rightarrow> jsval \<Rightarrow> (string \<times> jsval) list" where
  "set_prop [] k v = [(k, v)]"
| "set_prop ((k', v') # ps) k v =
     (if k' = k then (k, v) # ps else (k', v') # set_prop ps k v)"

section \<open>deepClone\<close>




section \<open>Property access\<close>

text \<open>
  The properties that the standard gives \<open>Array.prototype\<close> and \<open>Date.prototype\<close>; behind
  them the chain continues to \<open>Object.prototype\<close>.
\<close>

definition array_prototype :: "(string \<times> jsval) list" where
  "array_prototype =
     map (\<lambda>m. (m, JFun (''Array.prototype.'' @ m)))
       [''at'', ''concat'', ''copyWithin'', ''entries'', ''every'', ''fill'', ''filter'',
        ''find'', ''findIndex'', ''findLast'', ''findLastIndex'', ''flat'', ''flatMap'',
        ''forEach'', ''includes'', ''indexOf'', ''join'', ''keys'', ''lastIndexOf'', ''map'',
        ''pop'', ''push'', ''reduce'', ''reduceRight'', ''reverse'', ''shift'', ''slice'',
        ''some'', ''sort'', ''splice'', ''toLocaleString'', ''toReversed'', ''toSorted'',
        ''toSpliced'', ''toString'', ''unshift'', ''values'', ''with'']
     @ (''constructor'', JFun ''Array'') # object_prototype"

definition date_prototype :: "(string \<times> jsval) list" where
  "date_prototype =
     map (\<lambda>m. (m, JFun (''Date.prototype.'' @ m)))
       [''getDate'', ''getDay'', ''getFullYear'', ''getHours'', ''getMilliseconds'',
        ''getMinutes'', ''getMonth'', ''getSeconds'', ''getTime'', ''getTimezoneOffset'',
        ''getUTCDate'', ''getUTCDay'', ''getUTCFullYear'', ''getUTCHours'',
        ''getUTCMilliseconds'', ''getUTCMinutes'', ''getUTCMonth'', ''getUTCSeconds'',
        ''getYear'', ''setDate'', ''setFullYear'', ''setHours'', ''setMilliseconds'',
        ''setMinutes'', ''setMonth'', ''setSeconds'', ''setTime'', ''setUTCDate'',
        ''setUTCFullYear'', ''setUTCHours'', ''setUTCMilliseconds'', ''setUTCMinutes'',
        ''setUTCMonth'', ''setUTCSeconds'', ''setYear'', ''toDateString'', ''toGMTString'',
        ''toISOString'', ''toJSON'', ''toLocaleDateString'', ''toLocaleString'',
        ''toLocaleTimeString'', ''toString'', ''toTimeString'', ''toUTCString'', ''valueOf'']
     @ (''constructor'', JFun ''Date'') # object_prototype"

text \<open>
  The own enumerable properties of a value of type \<open>object\<close>, in the order of
  \<open>Object.keys\<close>: those of an object, the elements of an array under their indices, none
  for a date.
\<close>

fun own_props :: "jsval \<Rightarrow> (string \<times> jsval) list" where
  "own_props (JObj own inh) = own"
| "own_props (JArr xs) = zip (map show_nat [0..<length xs]) xs"
| "own_props v = []"

text \<open>The properties found on a value only by \<open>in\<close> and by a read: the rest of the chain.\<close>

fun chain_props :: "jsval \<Rightarrow> (string \<times> jsval) list" where
  "chain_props (JObj own inh) = inh"
| "chain_props (JArr xs) = (''length'', JNum (Fin (of_nat (length xs)))) # array_prototype"
| "chain_props (JDate t) = date_prototype"
| "chain_props v = []"

text \<open>\<open>key in obj\<close> and \<open>obj[key]\<close>: an own property first, then the chain.\<close>

definition has_property :: "jsval \<Rightarrow> string \<Rightarrow> bool" where
  "has_property obj key = (map_of (own_props obj @ chain_props obj) key \<noteq> None)"

definition get :: "jsval \<Rightarrow> string \<Rightarrow> jsval" where
  "get obj key =
     (case map_of (own_props obj @ chain_props obj) key of None \<Rightarrow> JUndef | Some v \<Rightarrow> v)"

definition object_keys :: "jsval \<Rightarrow> string list" where
  "object_keys obj = map fst (own_props obj)"

definition object_values :: "jsval \<Rightarrow> jsval list" where
  "object_values obj = map snd (own_props obj)"

section \<open>Object helpers\<close>

text \<open>\<open>_.keys\<close> and \<open>_.values\<close>.\<close>

definition keys :: "jsval \<Rightarrow> error + jsval" where
  "keys obj =
     (if obj = JNull \<or> typeof obj \<noteq> ''object'' then Inr (JArr [])
      else Inr (JArr (map JStr (object_keys obj))))"

definition values_js :: "jsval \<Rightarrow> error + jsval" where
  "values_js obj =
     (if obj = JNull \<or> typeof obj \<noteq> ''object'' then Inr (JArr [])
      else Inr (JArr (object_values obj)))"

text \<open>
  \<open>_.pick(obj, ...keys)\<close>: the reduction over the given keys, from \<open>{}\<close>; a key is taken
  when \<open>key in obj\<close>.
\<close>

definition pick :: "jsval \<Rightarrow> string list \<Rightarrow> error + jsval" where
  "pick obj ks =
     (if obj = JNull \<or> typeof obj \<noteq> ''object'' then Inr empty_object
      else Inr (JObj (fold (\<lambda>key result.
                             if has_property obj key then set_prop result key (get obj key)
                             else result) ks [])
                     object_prototype))"

text \<open>
  \<open>_.omit(obj, ...keys)\<close>: the reduction over \<open>Object.keys(obj)\<close>, from \<open>{}\<close>; a key is
  taken when the given keys do not include it.
\<close>

definition omit :: "jsval \<Rightarrow> string list \<Rightarrow> error + jsval" where
  "omit obj ks =
     (if obj = JNull \<or> typeof obj \<noteq> ''object'' then Inr empty_object
      else Inr (JObj (fold (\<lambda>key result.
                             if key \<notin> set ks then set_prop result key (get obj key)
                             else result) (object_keys obj) [])
                     object_prototype))"

text \<open>The object of the repository's own test: \<open>{ a: 1, b: 2, c: 3 }\<close>.\<close>

definition abc :: jsval where
  "abc = JObj [(''a'', JNum (Fin 1)), (''b'', JNum (Fin 2)), (''c'', JNum (Fin 3))]
              object_prototype"

section \<open>curry\<close>

text \<open>
  A function handed to \<open>_.curry\<close> is what it computes from its argument list, with its
  declared number of parameters, \<open>fn.length\<close>.
\<close>

datatype 'r jsfun = Fn (body: "jsval list \<Rightarrow> 'r") (arity: nat)

text \<open>
  What a call of the curried function returns: the value of \<open>fn\<close>, or a function. The
  functions are the named function \<open>curried\<close> that \<open>_.curry\<close> returns, and the anonymous
  \<open>function(...moreArgs)\<close>, a closure that holds the arguments received so far.
\<close>

datatype 'r curry_result = Value 'r | Curried | Partial "jsval list"

text \<open>
  \<open>function curried(...args)\<close>: with enough arguments \<open>fn\<close> is applied to all of them,
  otherwise the closure over \<open>args\<close> is returned.
\<close>

definition curried :: "'r jsfun \<Rightarrow> jsval list \<Rightarrow> 'r curry_result" where
  "curried fn args =
     (if length args \<ge> arity fn then Value (body fn args) else Partial args)"

definition curry :: "'r jsfun \<Rightarrow> 'r curry_result" where
  "curry fn = Curried"

text \<open>
  One call \<open>c(...moreArgs)\<close>. The closure calls \<open>curried\<close> with \<open>args.concat(moreArgs)\<close>. The
  values of \<open>fn\<close> are taken to be data: calling one is a \<open>TypeError\<close>.
\<close>

fun call :: "'r jsfun \<Rightarrow> 'r curry_result \<Rightarrow> jsval list \<Rightarrow> error + 'r curry_result" where
  "call fn Curried moreArgs = Inr (curried fn moreArgs)"
| "call fn (Partial args) moreArgs = Inr (curried fn (args @ moreArgs))"
| "call fn (Value r) moreArgs = Inl TypeError"

text \<open>Successive calls \<open>c(...g1)(...g2)...\<close>, one per group of arguments.\<close>

fun calls :: "'r jsfun \<Rightarrow> 'r curry_result \<Rightarrow> jsval list list \<Rightarrow> error + 'r curry_result" where
  "calls fn c [] = Inr c"
| "calls fn c (g # gs) =
     (case call fn c g of Inl e \<Rightarrow> Inl e | Inr c' \<Rightarrow> calls fn c' gs)"

text \<open>An example to run the model on: \<open>(a, b, c) => [a, b, c]\<close>, of three parameters.\<close>

definition triple :: "jsval jsfun" where
  "triple = Fn (\<lambda>xs. JArr (take 3 (xs @ replicate 3 JUndef))) 3"

section \<open>debounce\<close>

text \<open>
  \<open>_.debounce(func, wait)\<close> lives on the timers of the host. Time is counted in whole
  milliseconds. The host keeps the pending timers, each with its id, the time it is due
  and the arguments its callback will pass to \<open>func\<close>; the closure keeps the variable
  \<open>timeout\<close>, the id of the timer it set last. The log \<open>fired\<close> records when \<open>func\<close> was
  invoked and with which arguments. A timer is taken to fire at the time it is due (a real
  host promises no earlier).
\<close>

datatype debounced =
  Debounced (timers: "(nat \<times> int \<times> jsval list) list") (next_id: nat)
            (timeout: "nat option") (fired: "(int \<times> jsval list) list")

definition debounce :: debounced where
  "debounce = Debounced [] 0 None []"

text \<open>\<open>clearTimeout(id)\<close>: the timer of this id, if it is pending, is dropped.\<close>

definition clearTimeout :: "nat option \<Rightarrow> debounced \<Rightarrow> debounced" where
  "clearTimeout h st =
     (case h of
        None \<Rightarrow> st
      | Some i \<Rightarrow> Debounced (filter (\<lambda>(j, due, args). j \<noteq> i) (timers st)) (next_id st)
                            (timeout st) (fired st))"

text \<open>
  \<open>setTimeout(() => func.apply(this, args), wait)\<close> at time \<open>t\<close>: a new timer, due after
  \<open>wait\<close> milliseconds (after none if \<open>wait\<close> is negative); its id is returned.
\<close>

definition setTimeout :: "jsval list \<Rightarrow> int \<Rightarrow> int \<Rightarrow> debounced \<Rightarrow> nat \<times> debounced" where
  "setTimeout args wait t st =
     (next_id st,
      Debounced (timers st @ [(next_id st, t + max 0 wait, args)]) (Suc (next_id st))
                (timeout st) (fired st))"

text \<open>
  Time passes up to \<open>t\<close>: the timers due by then fire, the earlier first, and each
  invokes \<open>func\<close> with its arguments.
\<close>

definition elapse :: "int \<Rightarrow> debounced \<Rightarrow> debounced" where
  "elapse t st =
     (let due_now = sort_key (\<lambda>(j, due, args). due)
                      (filter (\<lambda>(j, due, args). due \<le> t) (timers st))
      in Debounced (filter (\<lambda>(j, due, args). \<not> due \<le> t) (timers st)) (next_id st)
                   (timeout st) (fired st @ map (\<lambda>(j, due, args). (due, args)) due_now))"

text \<open>
  A call of the wrapper at time \<open>t\<close>:
  \<open>clearTimeout(timeout); timeout = setTimeout(..., wait)\<close>.
\<close>

definition debounced_call :: "int \<Rightarrow> int \<Rightarrow> jsval list \<Rightarrow> debounced \<Rightarrow> debounced" where
  "debounced_call wait t args st =
     (let st1 = elapse t st;
          st2 = clearTimeout (timeout st1) st1;
          (h, st3) = setTimeout args wait t st2
      in Debounced (timers st3) (next_id st3) (Some h) (fired st3))"

text \<open>The calls of a list, each with its time, then time passing up to \<open>horizon\<close>.\<close>

fun debounced_calls :: "int \<Rightarrow> (int \<times> jsval list) list \<Rightarrow> debounced \<Rightarrow> debounced" where
  "debounced_calls wait [] st = st"
| "debounced_calls wait ((t, args) # rest) st =
     debounced_calls wait rest (debounced_call wait t args st)"

definition run_debounced :: "int \<Rightarrow> (int \<times> jsval list) list \<Rightarrow> int \<Rightarrow> debounced" where
  "run_debounced wait cs horizon = elapse horizon (debounced_calls wait cs debounce)"

text \<open>
  A burst: the calls come in the order of time, each less than \<open>wait\<close> milliseconds after
  the one before.
\<close>

fun burst :: "int \<Rightarrow> (int \<times> jsval list) list \<Rightarrow> bool" where
  "burst wait (c # d # cs) = (fst c \<le> fst d \<and> fst d - fst c < wait \<and> burst wait (d # cs))"
| "burst wait cs = True"

section \<open>JSON.stringify\<close>

text \<open>
  \<open>_.memoize\<close> takes \<open>JSON.stringify(args)\<close> as its cache key. The text of a string is
  the string between double quotes, with the double quote, the backslash and the control
  characters escaped.
\<close>

definition dquote :: char where
  "dquote = CHR 0x22"

definition backslash :: char where
  "backslash = CHR 0x5C"

definition hex_digit :: "nat \<Rightarrow> char" where
  "hex_digit n = (if n < 10 then char_of (48 + n) else char_of (87 + n))"

definition escape_char :: "char \<Rightarrow> string" where
  "escape_char c =
     (if c = CHR 0x08 then [backslash, CHR ''b'']
      else if c = CHR 0x09 then [backslash, CHR ''t'']
      else if c = CHR 0x0A then [backslash, CHR ''n'']
      else if c = CHR 0x0C then [backslash, CHR ''f'']
      else if c = CHR 0x0D then [backslash, CHR ''r'']
      else if c = dquote then [backslash, dquote]
      else if c = backslash then [backslash, backslash]
      else if (of_char c :: nat) < 32 then
        [backslash, CHR ''u'', CHR ''0'', CHR ''0'',
         hex_digit (of_char c div 16), hex_digit (of_char c mod 16)]
      else [c])"

definition quote :: "string \<Rightarrow> string" where
  "quote s = dquote # concat (map escape_char s) @ [dquote]"

text \<open>The texts of the members of an array or an object, separated by commas.\<close>

fun join :: "string list \<Rightarrow> string" where
  "join [] = []"
| "join [s] = s"
| "join (s # t # ss) = s @ CHR '','' # join (t # ss)"

text \<open>
  \<open>Date.prototype.toISOString\<close>, which \<open>toJSON\<close> of a valid date returns: the civil date
  of a day number counted from 1970-01-01, then the time of day, in UTC. A year outside
  0 to 9999 is written with a sign and six digits.
\<close>

definition pad :: "nat \<Rightarrow> nat \<Rightarrow> string" where
  "pad w n = replicate (w - length (show_nat n)) CHR ''0'' @ show_nat n"

definition civil_from_days :: "int \<Rightarrow> int \<times> int \<times> int" where
  "civil_from_days days =
     (let z = days + 719468;
          era = z div 146097;
          doe = z mod 146097;
          yoe = (doe - doe div 1460 + doe div 36524 - doe div 146096) div 365;
          doy = doe - (365 * yoe + yoe div 4 - yoe div 100);
          mp = (5 * doy + 2) div 153;
          d = doy - (153 * mp + 2) div 5 + 1;
          m = (if mp < 10 then mp + 3 else mp - 9);
          y = yoe + era * 400 + (if m \<le> 2 then 1 else 0)
      in (y, m, d))"

definition toISOString :: "int \<Rightarrow> string" where
  "toISOString t =
     (let (y, m, d) = civil_from_days (t div 86400000);
          r = t mod 86400000;
          year = (if 0 \<le> y \<and> y \<le> 9999 then pad 4 (nat y)
                  else (if y < 0 then CHR ''-'' else CHR ''+'') # pad 6 (nat \<bar>y\<bar>))
      in year @ ''-'' @ pad 2 (nat m) @ ''-'' @ pad 2 (nat d) @ ''T''
         @ pad 2 (nat (r div 3600000)) @ '':'' @ pad 2 (nat (r div 60000 mod 60)) @ '':''
         @ pad 2 (nat (r div 1000 mod 60)) @ ''.'' @ pad 3 (nat (r mod 1000)) @ ''Z'')"

text \<open>
  The text of a value, or nothing where \<open>JSON.stringify\<close> gives \<open>undefined\<close> (for
  \<open>undefined\<close> and for a function). A number that is not finite is written \<open>null\<close>, and so
  is an invalid date; a valid date is written as the string of \<open>toISOString\<close>. In an
  array a value without text is written \<open>null\<close>; in an object its property is left out.
  The decimal text of a finite number, \<open>Number.prototype.toString\<close>, is the parameter
  \<open>num_str\<close>. Objects that carry a \<open>toJSON\<close> of their own are outside this model.
\<close>

fun serialize :: "(rat \<Rightarrow> string) \<Rightarrow> jsval \<Rightarrow> string option" where
  "serialize num_str JUndef = None"
| "serialize num_str (JFun f) = None"
| "serialize num_str JNull = Some ''null''"
| "serialize num_str (JBool b) = Some (if b then ''true'' else ''false'')"
| "serialize num_str (JNum n) = Some (case n of Fin q \<Rightarrow> num_str q | _ \<Rightarrow> ''null'')"
| "serialize num_str (JStr s) = Some (quote s)"
| "serialize num_str (JDate t) =
     Some (case t of None \<Rightarrow> ''null'' | Some ms \<Rightarrow> quote (toISOString ms))"
| "serialize num_str (JArr xs) =
     Some (''['' @ join (map (\<lambda>x. case serialize num_str x of
                                     None \<Rightarrow> ''null'' | Some s \<Rightarrow> s) xs) @ '']'')"
| "serialize num_str (JObj own inh) =
     Some (''{'' @ join (concat (map (\<lambda>(k, v). case serialize num_str v of
                                       None \<Rightarrow> [] | Some s \<Rightarrow> [quote k @ '':'' @ s]) own))
           @ ''}'')"

text \<open>\<open>JSON.stringify(args)\<close> of an argument list, which is an array.\<close>

definition stringify :: "(rat \<Rightarrow> string) \<Rightarrow> jsval list \<Rightarrow> string" where
  "stringify num_str args = the (serialize num_str (JArr args))"

text \<open>
  \<open>Number.prototype.toString\<close> on the whole numbers of at most 21 digits: the decimal
  digits, after a minus sign for a negative one. The examples use it.
\<close>

definition int_str :: "rat \<Rightarrow> string" where
  "int_str q = (if q < 0 then CHR ''-'' # show_nat (nat \<lfloor>- q\<rfloor>) else show_nat (nat \<lfloor>q\<rfloor>))"

section \<open>memoize\<close>

text \<open>
  The closure of \<open>_.memoize(fn)\<close> owns the \<open>Map\<close> \<open>cache\<close>, from keys to results. To count
  what the specification counts, the state also records each argument list that \<open>fn\<close> was
  applied to, in order. \<open>fn\<close> is pure: a function of its argument list.
\<close>

datatype 'r memo = Memo (cache: "string \<rightharpoonup> 'r") (invoked: "jsval list list")

definition memoize :: "(jsval list \<Rightarrow> 'r) \<Rightarrow> 'r memo" where
  "memoize fn = Memo Map.empty []"

text \<open>
  One call of the wrapper: the key is \<open>JSON.stringify(args)\<close>; a key that the cache has is
  answered from the cache; otherwise \<open>fn\<close> is applied, and its result stored and returned.
\<close>

definition memo_call ::
  "(rat \<Rightarrow> string) \<Rightarrow> (jsval list \<Rightarrow> 'r) \<Rightarrow> jsval list \<Rightarrow> 'r memo \<Rightarrow> 'r \<times> 'r memo" where
  "memo_call num_str fn args st =
     (let key = stringify num_str args in
      case cache st key of
        Some v \<Rightarrow> (v, st)
      | None \<Rightarrow>
          (let result = fn args
           in (result, Memo ((cache st)(key \<mapsto> result)) (invoked st @ [args]))))"

text \<open>A sequence of calls of one wrapper, with the results in order.\<close>

fun memo_calls ::
  "(rat \<Rightarrow> string) \<Rightarrow> (jsval list \<Rightarrow> 'r) \<Rightarrow> jsval list list \<Rightarrow> 'r memo \<Rightarrow> 'r list \<times> 'r memo" where
  "memo_calls num_str fn [] st = ([], st)"
| "memo_calls num_str fn (args # rest) st =
     (let (r, st') = memo_call num_str fn args st;
          (rs, st'') = memo_calls num_str fn rest st'
      in (r # rs, st''))"

text \<open>
  The invariant of the cache: a key is cached exactly when some recorded invocation has
  it, with the result of the first such invocation, and no two invocations share a key.
\<close>

definition memo_inv :: "(rat \<Rightarrow> string) \<Rightarrow> (jsval list \<Rightarrow> 'r) \<Rightarrow> 'r memo \<Rightarrow> bool" where
  "memo_inv num_str fn st =
     (distinct (map (stringify num_str) (invoked st))
      \<and> (\<forall>k. cache st k
            = map_option fn (find (\<lambda>c. stringify num_str c = k) (invoked st))))"

section \<open>Values that JSON text tells apart\<close>

text \<open>
  The values of JSON itself: \<open>null\<close>, booleans, finite numbers, strings, arrays of such
  values and plain objects of such values.
\<close>

fun json_value :: "jsval \<Rightarrow> bool" where
  "json_value JNull = True"
| "json_value (JBool b) = True"
| "json_value (JNum n) = (case n of Fin q \<Rightarrow> True | _ \<Rightarrow> False)"
| "json_value (JStr s) = True"
| "json_value (JArr xs) = list_all json_value xs"
| "json_value (JObj own inh) =
     (inh = object_prototype \<and> distinct (map fst own) \<and> list_all json_value (map snd own))"
| "json_value v = False"

text \<open>The finite numbers that occur in a value.\<close>

fun numbers :: "jsval \<Rightarrow> rat list" where
  "numbers (JNum n) = (case n of Fin q \<Rightarrow> [q] | _ \<Rightarrow> [])"
| "numbers (JArr xs) = concat (map numbers xs)"
| "numbers (JObj own inh) = concat (map (\<lambda>(k, v). numbers v) own)"
| "numbers v = []"

text \<open>
  What is used of \<open>Number.prototype.toString\<close>, on the numbers \<open>qs\<close>: the text of a number
  is not empty and made of digits, signs, the point and the exponent mark, and different
  numbers have different texts.
\<close>

definition num_char :: "char \<Rightarrow> bool" where
  "num_char c = (c \<in> set ''0123456789+-.e'')"

definition number_texts :: "(rat \<Rightarrow> string) \<Rightarrow> rat list \<Rightarrow> bool" where
  "number_texts num_str qs =
     (list_all (\<lambda>q. num_str q \<noteq> [] \<and> list_all num_char (num_str q)) qs
      \<and> list_all (\<lambda>q. list_all (\<lambda>q'. num_str q = num_str q' \<longrightarrow> q = q') qs) qs)"

text \<open>The text of an array element: \<open>null\<close> stands in where there is none.\<close>

definition text_of :: "(rat \<Rightarrow> string) \<Rightarrow> jsval \<Rightarrow> string" where
  "text_of num_str v = (case serialize num_str v of None \<Rightarrow> ''null'' | Some s \<Rightarrow> s)"

text \<open>What may follow the text of a value: nothing, a comma, or a closing bracket.\<close>

definition closing :: "string \<Rightarrow> bool" where
  "closing r = (case r of [] \<Rightarrow> True | c # t \<Rightarrow> c \<in> set '',]}'')"

text \<open>Reading one escaped code unit back, the inverse of \<open>escape_char\<close>.\<close>

definition hex_value :: "char \<Rightarrow> nat" where
  "hex_value c = (let m = (of_char c :: nat) in if m < 58 then m - 48 else m - 87)"

fun unescape :: "string \<Rightarrow> (char \<times> string) option" where
  "unescape [] = None"
| "unescape (a # rest) =
     (if a \<noteq> backslash then Some (a, rest)
      else case rest of
        [] \<Rightarrow> None
      | b # rest' \<Rightarrow>
          if b = CHR ''b'' then Some (CHR 0x08, rest')
          else if b = CHR ''t'' then Some (CHR 0x09, rest')
          else if b = CHR ''n'' then Some (CHR 0x0A, rest')
          else if b = CHR ''f'' then Some (CHR 0x0C, rest')
          else if b = CHR ''r'' then Some (CHR 0x0D, rest')
          else if b = CHR ''u'' then
            (case rest' of
               z1 # z2 # h1 # h2 # rest'' \<Rightarrow>
                 Some (char_of (16 * hex_value h1 + hex_value h2), rest'')
             | _ \<Rightarrow> None)
          else Some (b, rest'))"

section \<open>Properties of the numeric helpers\<close>

lemma num_le_refl: "a \<noteq> NaN \<Longrightarrow> num_le a a"
  by (cases a) simp_all

lemma num_le_total: "a \<noteq> NaN \<Longrightarrow> b \<noteq> NaN \<Longrightarrow> num_le a b \<or> num_le b a"
  by (cases a; cases b) auto

lemma num_le_trans: "num_le a b \<Longrightarrow> num_le b c \<Longrightarrow> num_le a c"
  by (cases a; cases b; cases c) auto

lemma num_le_antisym: "num_le a b \<Longrightarrow> num_le b a \<Longrightarrow> a = b"
  by (cases a; cases b) auto

lemma num_le_not_NaN: "num_le a b \<Longrightarrow> a \<noteq> NaN \<and> b \<noteq> NaN"
  by (cases a; cases b) auto

text \<open>
  C9. As stated the claim fails for \<open>n = NaN\<close>, which is a number: \<open>Math.max\<close> and
  \<open>Math.min\<close> propagate it, and no comparison with \<open>NaN\<close> holds.
\<close>

theorem clamp_NaN_counterexample:
  "num_le (Fin 0) (Fin 1) \<and> clamp NaN (Fin 0) (Fin 1) = NaN
   \<and> \<not> num_le (Fin 0) (clamp NaN (Fin 0) (Fin 1))"
  by (simp add: clamp_def math_max_def math_min_def)

text \<open>
  C9, amended. For all numbers \<open>n\<close>, \<open>lo\<close>, \<open>hi\<close> with \<open>lo <= hi\<close> and \<open>n\<close> not \<open>NaN\<close>
  (infinities included), the value \<open>v\<close> of \<open>_.clamp(n, lo, hi)\<close> satisfies
  \<open>lo <= v <= hi\<close>, and \<open>v = n\<close> whenever \<open>lo <= n <= hi\<close>.
\<close>

theorem clamp_in_bounds:
  assumes "num_le lo hi" and "n \<noteq> NaN"
  shows "num_le lo (clamp n lo hi) \<and> num_le (clamp n lo hi) hi
         \<and> (num_le lo n \<and> num_le n hi \<longrightarrow> clamp n lo hi = n)"
proof -
  from assms(1) have nn: "lo \<noteq> NaN" "hi \<noteq> NaN"
    using num_le_not_NaN by blast+
  show ?thesis
  proof (cases "num_le n lo")
    case True
    then have m: "math_max n lo = lo"
      using nn assms(2) by (simp add: math_max_def)
    have "clamp n lo hi = lo"
      using m nn assms(1) by (simp add: clamp_def math_min_def)
    then show ?thesis
      using assms(1) nn True num_le_refl num_le_antisym by auto
  next
    case False
    then have lo_n: "num_le lo n"
      using num_le_total [OF assms(2) nn(1)] by blast
    have m: "math_max n lo = n"
      using False nn assms(2) by (simp add: math_max_def)
    show ?thesis
    proof (cases "num_le n hi")
      case True
      then have "clamp n lo hi = n"
        using m nn assms(2) by (simp add: clamp_def math_min_def)
      then show ?thesis using lo_n True by simp
    next
      case nh: False
      then have "clamp n lo hi = hi"
        using m nn assms(2) by (simp add: clamp_def math_min_def)
      then show ?thesis
        using assms(1) nn nh num_le_refl by auto
    qed
  qed
qed

theorem clamp_in_bounds_witness:
  "clamp (Fin 15) (Fin 10) (Fin 20) = Fin 15 \<and> clamp (Fin 5) (Fin 10) (Fin 20) = Fin 10
   \<and> num_le (Fin 10) (clamp PosInf (Fin 10) (Fin 20))
   \<and> num_le (clamp PosInf (Fin 10) (Fin 20)) (Fin 20)"
proof -
  have h: "num_le (Fin 10) (Fin 20)" by simp
  have a: "clamp (Fin 15) (Fin 10) (Fin 20) = Fin 15"
    using clamp_in_bounds [OF h, of "Fin 15"] by simp
  have b: "clamp (Fin 5) (Fin 10) (Fin 20) = Fin 10"
    by (simp add: clamp_def math_max_def math_min_def)
  have c: "num_le (Fin 10) (clamp PosInf (Fin 10) (Fin 20))
           \<and> num_le (clamp PosInf (Fin 10) (Fin 20)) (Fin 20)"
    using clamp_in_bounds [OF h, of PosInf] by simp
  show ?thesis using a b c by simp
qed

section \<open>Properties of the string helpers\<close>





section \<open>Properties of chunk\<close>

lemma slice_window:
  assumes "0 < n" and "i < length xs"
  shows "slice xs (int i) (int i + n) = take (nat n) (drop i xs)"
proof (cases "int i + n \<le> int (length xs)")
  case True
  then have "nat (int i + n - int i) = nat n" by simp
  then show ?thesis
    using assms True by (simp add: slice_def Let_def min_def)
next
  case False
  then have a: "slice xs (int i) (int i + n) = take (length xs - i) (drop i xs)"
    using assms by (simp add: slice_def Let_def min_def nat_diff_distrib')
  have "length (drop i xs) \<le> nat n" using False assms by simp
  then have "take (nat n) (drop i xs) = drop i xs" by simp
  then show ?thesis using a by simp
qed

lemma cat_window: "take m (drop i xs) @ drop (i + m) xs = drop i xs"
  by (metis append_take_drop_id drop_drop add.commute)

lemma chunk_loop_exit: "int (length xs) \<le> i \<Longrightarrow> chunk_loop xs n i res = Some res"
  by (subst chunk_loop.simps) simp

lemma chunk_loop_step:
  "i < int (length xs) \<Longrightarrow>
   chunk_loop xs n i res = chunk_loop xs n (i + n) (res @ [slice xs i (i + n)])"
  by (subst chunk_loop.simps) simp

lemma chunk_loop_total:
  assumes "0 < n"
  shows "\<exists>cs. chunk_loop xs n (int i) res = Some (res @ cs)
              \<and> concat cs = drop i xs
              \<and> (\<forall>c \<in> set (butlast cs). int (length c) = n)
              \<and> (length xs \<le> i \<longrightarrow> cs = [])
              \<and> (i < length xs \<longrightarrow>
                   cs \<noteq> [] \<and> 1 \<le> length (last cs) \<and> int (length (last cs)) \<le> n)"
proof (induction "length xs - i" arbitrary: i res rule: less_induct)
  case less
  show ?case
  proof (cases "i < length xs")
    case False
    then show ?thesis by (simp add: chunk_loop_exit)
  next
    case True
    define c where "c = take (nat n) (drop i xs)"
    define j where "j = i + nat n"
    have jn: "int j = int i + n" using assms by (simp add: j_def)
    have "length xs - j < length xs - i" using True assms by (simp add: j_def)
    from less [OF this, of "res @ [c]"]
    obtain cs where cs: "chunk_loop xs n (int j) (res @ [c]) = Some ((res @ [c]) @ cs)"
      "concat cs = drop j xs" "\<forall>c \<in> set (butlast cs). int (length c) = n"
      "length xs \<le> j \<longrightarrow> cs = []"
      "j < length xs \<longrightarrow> cs \<noteq> [] \<and> 1 \<le> length (last cs) \<and> int (length (last cs)) \<le> n"
      by blast
    have step: "chunk_loop xs n (int i) res = Some (res @ (c # cs))"
      using chunk_loop_step [of "int i" xs n res] True cs(1) slice_window [OF assms True]
      by (simp add: c_def jn)
    have cat: "concat (c # cs) = drop i xs"
      using cs(2) cat_window [of "nat n" i xs] by (simp add: c_def j_def)
    have lenc: "length c = min (nat n) (length xs - i)" by (simp add: c_def)
    have full: "\<forall>d \<in> set (butlast (c # cs)). int (length d) = n"
    proof (cases "cs = []")
      case True
      then show ?thesis by simp
    next
      case False
      then have "j < length xs" using cs(4) by auto
      then have "int (length c) = n" using lenc assms by (simp add: j_def)
      then show ?thesis using cs(3) False by simp
    qed
    have lst: "1 \<le> length (last (c # cs)) \<and> int (length (last (c # cs))) \<le> n"
    proof (cases "cs = []")
      case True
      have "1 \<le> length c \<and> int (length c) \<le> n"
        using lenc \<open>i < length xs\<close> assms by (cases "nat n \<le> length xs - i") auto
      then show ?thesis using True by simp
    next
      case False
      then have "j < length xs" using cs(4) by auto
      then show ?thesis using cs(5) False by simp
    qed
    show ?thesis
      using step cat full lst True by (intro exI [of _ "c # cs"]) simp
  qed
qed

text \<open>
  C4. For every array \<open>arr\<close> and every positive integer \<open>n\<close>, \<open>_.chunk(arr, n)\<close> returns;
  its chunks concatenated in order are \<open>arr\<close>; every chunk but the last has length
  exactly \<open>n\<close>; and when \<open>arr\<close> is not empty there is a last chunk, of a length between
  1 and \<open>n\<close>.
\<close>

theorem chunk_partition:
  assumes "0 < n"
  shows "\<exists>cs. chunk (JArr xs) (Some n) = Some (Inr (JArr (map JArr cs)))
              \<and> concat cs = xs
              \<and> (\<forall>c \<in> set (butlast cs). int (length c) = n)
              \<and> (xs = [] \<longrightarrow> cs = [])
              \<and> (xs \<noteq> [] \<longrightarrow>
                   cs \<noteq> [] \<and> 1 \<le> length (last cs) \<and> int (length (last cs)) \<le> n)"
proof -
  from chunk_loop_total [OF assms, of xs 0 "[]"]
  obtain cs where cs: "chunk_loop xs n 0 [] = Some cs" "concat cs = xs"
    "\<forall>c \<in> set (butlast cs). int (length c) = n"
    "length xs \<le> 0 \<longrightarrow> cs = []"
    "0 < length xs \<longrightarrow> cs \<noteq> [] \<and> 1 \<le> length (last cs) \<and> int (length (last cs)) \<le> n"
    by auto
  have "chunk (JArr xs) (Some n) = Some (Inr (JArr (map JArr cs)))"
    using cs(1) by (simp add: chunk_def)
  then show ?thesis using cs(2-5) by (intro exI [of _ cs]) simp
qed

theorem chunk_partition_witness:
  "chunk (JArr [JStr ''a'', JStr ''b'', JStr ''c'', JStr ''d'', JStr ''e'']) (Some 2)
     = Some (Inr (JArr [JArr [JStr ''a'', JStr ''b''], JArr [JStr ''c'', JStr ''d''],
                        JArr [JStr ''e'']]))
   \<and> (\<exists>cs. chunk (JArr [JStr ''a'', JStr ''b'', JStr ''c'', JStr ''d'', JStr ''e'']) (Some 2)
              = Some (Inr (JArr (map JArr cs)))
          \<and> concat cs = [JStr ''a'', JStr ''b'', JStr ''c'', JStr ''d'', JStr ''e'']
          \<and> length (last cs) = 1)"
proof -
  let ?xs = "[JStr ''a'', JStr ''b'', JStr ''c'', JStr ''d'', JStr ''e'']"
  have run: "chunk_loop ?xs 2 0 [] =
      Some [[JStr ''a'', JStr ''b''], [JStr ''c'', JStr ''d''], [JStr ''e'']]"
    by (simp add: chunk_loop_step chunk_loop_exit slice_def)
  have ev: "chunk (JArr ?xs) (Some 2) =
      Some (Inr (JArr [JArr [JStr ''a'', JStr ''b''], JArr [JStr ''c'', JStr ''d''],
                       JArr [JStr ''e'']]))"
    using run by (simp add: chunk_def)
  from chunk_partition [of 2 ?xs]
  obtain cs where cs: "chunk (JArr ?xs) (Some 2) = Some (Inr (JArr (map JArr cs)))"
    "concat cs = ?xs" by auto
  from cs(1) ev have "map JArr cs =
      [JArr [JStr ''a'', JStr ''b''], JArr [JStr ''c'', JStr ''d''], JArr [JStr ''e'']]"
    by simp
  then have "cs = [[JStr ''a'', JStr ''b''], [JStr ''c'', JStr ''d''], [JStr ''e'']]"
    by (auto simp: map_eq_Cons_conv)
  then have "length (last cs) = 1" by simp
  then show ?thesis using ev cs by blast
qed

section \<open>Properties of deepClone\<close>







section \<open>Properties of pick and omit\<close>







lemma guard_object: "typeof (JObj own inh) = ''object'' \<and> JObj own inh \<noteq> JNull"
  by simp




section \<open>Properties of curry\<close>

lemma calls_partial:
  assumes "\<forall>g \<in> set gs. g \<noteq> []" and "gs \<noteq> []"
    and "length acc < arity fn" and "length (acc @ concat gs) = arity fn"
  shows "calls fn (Partial acc) gs = Inr (Value (body fn (acc @ concat gs)))"
  using assms
proof (induction gs arbitrary: acc)
  case Nil
  then show ?case by simp
next
  case (Cons g gs)
  show ?case
  proof (cases "gs = []")
    case True
    then show ?thesis using Cons.prems by (simp add: curried_def)
  next
    case False
    have g: "g \<noteq> []" using Cons.prems(1) by simp
    have "concat gs \<noteq> []" using False Cons.prems(1) by (cases gs) auto
    then have short: "length (acc @ g) < arity fn"
      using Cons.prems(4) by (cases "concat gs") auto
    have "calls fn (Partial (acc @ g)) gs = Inr (Value (body fn ((acc @ g) @ concat gs)))"
      using Cons.IH [of "acc @ g"] Cons.prems False short by simp
    then show ?thesis using short by (simp add: curried_def)
  qed
qed

text \<open>
  C2. For every function \<open>f\<close> of arity \<open>n\<close> and every list of \<open>n\<close> arguments, the calls of
  \<open>_.curry(f)\<close> on the arguments split in order into groups, one call per group and at
  least one argument per call, end with the value of \<open>f\<close> on all \<open>n\<close> arguments.
\<close>

theorem curry_any_grouping:
  assumes "length args = arity fn" and "concat gs = args"
    and "\<forall>g \<in> set gs. g \<noteq> []" and "gs \<noteq> []"
  shows "calls fn (curry fn) gs = Inr (Value (body fn args))"
proof -
  obtain g rest where gs: "gs = g # rest" using assms(4) by (cases gs) auto
  show ?thesis
  proof (cases "rest = []")
    case True
    then show ?thesis using gs assms by (simp add: curry_def curried_def)
  next
    case False
    have "concat rest \<noteq> []" using False assms(3) gs by (cases rest) auto
    then have short: "length g < arity fn"
      using assms(1,2) gs by (cases "concat rest") auto
    have "calls fn (Partial g) rest = Inr (Value (body fn (g @ concat rest)))"
      using calls_partial [of rest g fn] assms gs False short by auto
    then show ?thesis using short gs assms(2) by (auto simp: curry_def curried_def)
  qed
qed

theorem curry_any_grouping_witness:
  "calls triple (curry triple) [[JBool True], [JNull], [JStr ''c'']]
     = Inr (Value (JArr [JBool True, JNull, JStr ''c'']))
   \<and> calls triple (curry triple) [[JBool True, JNull], [JStr ''c'']]
     = Inr (Value (JArr [JBool True, JNull, JStr ''c'']))
   \<and> calls triple (curry triple) [[JBool True], [JNull, JStr ''c'']]
     = Inr (Value (JArr [JBool True, JNull, JStr ''c'']))
   \<and> calls triple (curry triple) [[JBool True, JNull, JStr ''c'']]
     = Inr (Value (JArr [JBool True, JNull, JStr ''c'']))"
proof -
  let ?args = "[JBool True, JNull, JStr ''c'']"
  have b: "body triple ?args = JArr ?args" and n: "length ?args = arity triple"
    by (simp_all add: triple_def)
  have "calls triple (curry triple) [[JBool True], [JNull], [JStr ''c'']]
          = Inr (Value (body triple ?args))"
    using n by (intro curry_any_grouping) simp_all
  moreover have "calls triple (curry triple) [[JBool True, JNull], [JStr ''c'']]
          = Inr (Value (body triple ?args))"
    using n by (intro curry_any_grouping) simp_all
  moreover have "calls triple (curry triple) [[JBool True], [JNull, JStr ''c'']]
          = Inr (Value (body triple ?args))"
    using n by (intro curry_any_grouping) simp_all
  moreover have "calls triple (curry triple) [[JBool True, JNull, JStr ''c'']]
          = Inr (Value (body triple ?args))"
    using n by (intro curry_any_grouping) simp_all
  ultimately show ?thesis using b by simp
qed

section \<open>Properties of debounce\<close>

lemma debounced_call_first:
  "debounced_call w t a debounce = Debounced [(0, t + max 0 w, a)] (Suc 0) (Some 0) []"
  by (simp add: debounced_call_def debounce_def elapse_def clearTimeout_def setTimeout_def)

lemma debounced_call_rearm:
  assumes "t \<le> t'" and "t' - t < w"
  shows "debounced_call w t' a' (Debounced [(i, t + max 0 w, a)] n (Some i) fs)
           = Debounced [(n, t' + max 0 w, a')] (Suc n) (Some n) fs"
  using assms
  by (simp add: debounced_call_def elapse_def clearTimeout_def setTimeout_def)

lemma burst_pending:
  assumes "burst w ((t, a) # cs)"
  shows "\<exists>j m. debounced_calls w cs (Debounced [(i, t + max 0 w, a)] n (Some i) fs)
           = Debounced [(j, fst (last ((t, a) # cs)) + max 0 w, snd (last ((t, a) # cs)))]
                       m (Some j) fs"
  using assms
proof (induction cs arbitrary: t a i n)
  case Nil
  then show ?case by simp
next
  case (Cons c cs)
  obtain t' a' where c: "c = (t', a')" by (cases c)
  have gap: "t \<le> t'" "t' - t < w" and rest: "burst w ((t', a') # cs)"
    using Cons.prems c by simp_all
  have "debounced_calls w (c # cs) (Debounced [(i, t + max 0 w, a)] n (Some i) fs)
        = debounced_calls w cs (Debounced [(n, t' + max 0 w, a')] (Suc n) (Some n) fs)"
    using c debounced_call_rearm [OF gap] by simp
  then show ?case using Cons.IH [OF rest, of n "Suc n"] c by simp
qed

lemma elapse_pending:
  "elapse T (Debounced [(j, due, a)] m h fs)
     = (if due \<le> T then Debounced [] m h (fs @ [(due, a)]) else Debounced [(j, due, a)] m h fs)"
  by (simp add: elapse_def)

text \<open>
  C5. For every wait time \<open>w\<close> and every burst of calls of the wrapper of
  \<open>_.debounce(f, w)\<close>, each call less than \<open>w\<close> milliseconds after the one before: once
  \<open>w\<close> milliseconds have passed since the last call, \<open>f\<close> has been invoked exactly once,
  \<open>w\<close> milliseconds after the last call and with its arguments, and no timer is pending;
  before that time \<open>f\<close> has not been invoked at all.
\<close>

theorem debounce_fires_once:
  assumes "cs \<noteq> []" and "burst w cs" and "0 \<le> w"
  shows "(fst (last cs) + w \<le> T \<longrightarrow>
            fired (run_debounced w cs T) = [(fst (last cs) + w, snd (last cs))]
            \<and> timers (run_debounced w cs T) = [])
         \<and> (T < fst (last cs) + w \<longrightarrow> fired (run_debounced w cs T) = [])"
proof -
  obtain t a rest where cs: "cs = (t, a) # rest"
    using assms(1) by (cases cs) auto
  have w: "max 0 w = w" using assms(3) by simp
  from burst_pending [of w t a rest 0 "Suc 0" "[]"] assms(2) cs
  obtain j m where "debounced_calls w rest (Debounced [(0, t + max 0 w, a)] (Suc 0) (Some 0) [])
      = Debounced [(j, fst (last cs) + max 0 w, snd (last cs))] m (Some j) []"
    by auto
  then have "debounced_calls w cs debounce
      = Debounced [(j, fst (last cs) + w, snd (last cs))] m (Some j) []"
    using cs w by (simp add: debounced_call_first)
  then have "run_debounced w cs T
      = (if fst (last cs) + w \<le> T
         then Debounced [] m (Some j) [(fst (last cs) + w, snd (last cs))]
         else Debounced [(j, fst (last cs) + w, snd (last cs))] m (Some j) [])"
    by (simp add: run_debounced_def elapse_pending)
  then show ?thesis by simp
qed

theorem debounce_fires_once_witness:
  "fired (run_debounced 100
            [(0, [JStr ''a'']), (50, [JStr ''b'']), (100, [JStr ''c'']), (150, [JStr ''d'']),
             (200, [JStr ''e''])] 300)
     = [(300, [JStr ''e''])]
   \<and> fired (run_debounced 100
            [(0, [JStr ''a'']), (50, [JStr ''b'']), (100, [JStr ''c'']), (150, [JStr ''d'']),
             (200, [JStr ''e''])] 299)
     = []"
proof -
  let ?cs = "[(0, [JStr ''a'']), (50, [JStr ''b'']), (100, [JStr ''c'']), (150, [JStr ''d'']),
             (200, [JStr ''e''])]"
  have b: "burst 100 ?cs" and n: "?cs \<noteq> []" and w: "(0::int) \<le> 100" by simp_all
  show ?thesis
    using debounce_fires_once [OF n b w, of 300] debounce_fires_once [OF n b w, of 299]
    by simp
qed

section \<open>Input of the wrong type\<close>

text \<open>
  C3. As stated the claim fails for \<open>last\<close>: on what is not an array it returns
  \<open>undefined\<close>, which is none of the empty string, the empty array, the empty object,
  \<open>NaN\<close> and \<open>false\<close>.
\<close>

theorem last_undefined_counterexample:
  "last_js (JStr ''abc'') = Inr JUndef
   \<and> JUndef \<noteq> JStr '''' \<and> JUndef \<noteq> JArr [] \<and> JUndef \<noteq> empty_object
   \<and> JUndef \<noteq> JNum NaN \<and> JUndef \<noteq> JBool False"
  by (simp add: last_js_def empty_object_def)

text \<open>
  C3, amended. Called with input of the wrong type, every helper returns a default and
  raises nothing: on a non-string, \<open>capitalize\<close>, \<open>truncate\<close> and \<open>kebabCase\<close> return the
  empty string and \<open>isPalindrome\<close> returns \<open>false\<close>; on a non-array, \<open>mean\<close> returns \<open>NaN\<close>,
  \<open>last\<close> returns \<open>undefined\<close>, \<open>includes\<close> returns \<open>false\<close>, and \<open>without\<close>, \<open>chunk\<close> and
  \<open>unique\<close> return the empty array; on \<open>null\<close> or a non-object, \<open>keys\<close> and \<open>values\<close> return
  the empty array and \<open>pick\<close> and \<open>omit\<close> the empty object.
\<close>

theorem wrong_type_defaults:
  "(typeof v \<noteq> ''string'' \<longrightarrow>
      capitalize v = Inr (JStr '''') \<and> truncate v len suf = Inr (JStr '''')
      \<and> kebabCase v = Inr (JStr '''') \<and> isPalindrome v = Inr (JBool False))
   \<and> (\<not> isArray v \<longrightarrow>
      mean add_op div_op v = Inr (JNum NaN) \<and> last_js v = Inr JUndef
      \<and> includes_js same v x = Inr (JBool False) \<and> without same v vs = Inr (JArr [])
      \<and> chunk v sz = Some (Inr (JArr [])) \<and> unique same v = Inr (JArr []))
   \<and> (v = JNull \<or> typeof v \<noteq> ''object'' \<longrightarrow>
      keys v = Inr (JArr []) \<and> values_js v = Inr (JArr [])
      \<and> pick v ks = Inr empty_object \<and> omit v ks = Inr empty_object)"
proof -
  have s: "typeof v \<noteq> ''string'' \<longrightarrow>
      capitalize v = Inr (JStr '''') \<and> truncate v len suf = Inr (JStr '''')
      \<and> kebabCase v = Inr (JStr '''') \<and> isPalindrome v = Inr (JBool False)"
    by (simp add: capitalize_def truncate_def kebabCase_def isPalindrome_def Let_def)
  have a: "\<not> isArray v \<longrightarrow>
      mean add_op div_op v = Inr (JNum NaN) \<and> last_js v = Inr JUndef
      \<and> includes_js same v x = Inr (JBool False) \<and> without same v vs = Inr (JArr [])
      \<and> chunk v sz = Some (Inr (JArr [])) \<and> unique same v = Inr (JArr [])"
    by (simp add: mean_def last_js_def includes_js_def without_def chunk_def unique_def)
  have ob: "v = JNull \<or> typeof v \<noteq> ''object'' \<longrightarrow>
      keys v = Inr (JArr []) \<and> values_js v = Inr (JArr [])
      \<and> pick v ks = Inr empty_object \<and> omit v ks = Inr empty_object"
    by (auto simp: keys_def values_js_def pick_def omit_def)
  show ?thesis using s a ob by blast
qed

theorem wrong_type_defaults_witness:
  "capitalize (JNum (Fin 5)) = Inr (JStr '''')
   \<and> isPalindrome JNull = Inr (JBool False)
   \<and> mean (\<lambda>a b. a) (\<lambda>a b. a) (JStr ''abc'') = Inr (JNum NaN)
   \<and> unique (=) abc = Inr (JArr [])
   \<and> keys (JStr ''abc'') = Inr (JArr [])
   \<and> omit JNull [''a''] = Inr empty_object"
proof -
  have "capitalize (JNum (Fin 5)) = Inr (JStr '''')"
    using wrong_type_defaults [of "JNum (Fin 5)"] by simp
  moreover have "isPalindrome JNull = Inr (JBool False)"
    using wrong_type_defaults [of JNull] by simp
  moreover have "mean (\<lambda>a b. a) (\<lambda>a b. a) (JStr ''abc'') = Inr (JNum NaN)
      \<and> keys (JStr ''abc'') = Inr (JArr [])"
    using wrong_type_defaults [of "JStr ''abc''" _ _ "\<lambda>a b. a" "\<lambda>a b. a"] by simp
  moreover have "unique (=) abc = Inr (JArr [])"
    using wrong_type_defaults [of abc _ _ _ _ "(=)"] by (simp add: abc_def)
  moreover have "omit JNull [''a''] = Inr empty_object"
    using wrong_type_defaults [of JNull _ _ _ _ _ _ _ _ "[''a'']"] by simp
  ultimately show ?thesis by simp
qed

section \<open>Properties of memoize\<close>

lemma find_append_Some: "find P xs = Some b \<Longrightarrow> find P (xs @ ys) = Some b"
  by (induction xs) (auto split: if_splits)

lemma find_append_None: "find P xs = None \<Longrightarrow> find P (xs @ ys) = find P ys"
  by (induction xs) (auto split: if_splits)

lemma find_None_keys: "find (\<lambda>c. f c = k) xs = None \<longleftrightarrow> k \<notin> set (map f xs)"
  by (induction xs) auto

lemma memo_inv_init: "memo_inv num_str fn (memoize fn)"
  by (simp add: memo_inv_def memoize_def)

lemma memo_call_inv:
  assumes "memo_inv num_str fn st" and "memo_call num_str fn a st = (r, st')"
  shows "memo_inv num_str fn st'
         \<and> (\<exists>ext. invoked st' = invoked st @ ext \<and> set ext \<subseteq> {a})
         \<and> (\<exists>b. find (\<lambda>c. stringify num_str c = stringify num_str a) (invoked st') = Some b
                \<and> r = fn b)"
proof (cases "cache st (stringify num_str a)")
  case None
  let ?k = "stringify num_str a"
  have st': "st' = Memo ((cache st)(?k \<mapsto> fn a)) (invoked st @ [a])" and r: "r = fn a"
    using assms(2) None by (auto simp: memo_call_def Let_def)
  have nf: "find (\<lambda>c. stringify num_str c = ?k) (invoked st) = None"
    using assms(1) None by (simp add: memo_inv_def)
  then have fresh: "?k \<notin> set (map (stringify num_str) (invoked st))"
    by (simp add: find_None_keys)
  have d: "distinct (map (stringify num_str) (invoked st'))"
    using assms(1) fresh st' by (simp add: memo_inv_def)
  have c: "cache st' k = map_option fn (find (\<lambda>c. stringify num_str c = k) (invoked st'))" for k
  proof (cases "k = ?k")
    case True
    then show ?thesis using st' nf by (simp add: find_append_None)
  next
    case False
    have old: "cache st k = map_option fn (find (\<lambda>c. stringify num_str c = k) (invoked st))"
      using assms(1) by (simp add: memo_inv_def)
    show ?thesis
    proof (cases "find (\<lambda>c. stringify num_str c = k) (invoked st)")
      case None
      then show ?thesis using st' False old by (simp add: find_append_None)
    next
      case (Some b)
      then show ?thesis using st' False old by (simp add: find_append_Some)
    qed
  qed
  have f: "find (\<lambda>c. stringify num_str c = ?k) (invoked st') = Some a"
    using st' nf by (simp add: find_append_None)
  show ?thesis using d c f r st' by (auto simp: memo_inv_def)
next
  case (Some v)
  then have st': "st' = st" and r: "r = v"
    using assms(2) by (simp_all add: memo_call_def)
  obtain b where "find (\<lambda>c. stringify num_str c = stringify num_str a) (invoked st) = Some b"
    "v = fn b"
    using assms(1) Some by (auto simp: memo_inv_def)
  then show ?thesis using st' r assms(1) by auto
qed

lemma memo_calls_inv:
  assumes "memo_inv num_str fn st" and "memo_calls num_str fn cs st = (rs, st')"
  shows "memo_inv num_str fn st' \<and> length rs = length cs
         \<and> (\<exists>ext. invoked st' = invoked st @ ext \<and> set ext \<subseteq> set cs)
         \<and> (\<forall>i < length cs. \<exists>b.
               find (\<lambda>c. stringify num_str c = stringify num_str (cs ! i)) (invoked st') = Some b
               \<and> rs ! i = fn b)"
  using assms
proof (induction cs arbitrary: st rs st')
  case Nil
  then show ?case by simp
next
  case (Cons a rest)
  obtain r st1 where c1: "memo_call num_str fn a st = (r, st1)"
    by (cases "memo_call num_str fn a st")
  obtain rs1 st2 where c2: "memo_calls num_str fn rest st1 = (rs1, st2)"
    by (cases "memo_calls num_str fn rest st1")
  have res: "rs = r # rs1" "st' = st2"
    using Cons.prems(2) c1 c2 by simp_all
  from memo_call_inv [OF Cons.prems(1) c1]
  obtain e1 b where s1: "memo_inv num_str fn st1" "invoked st1 = invoked st @ e1"
    "set e1 \<subseteq> {a}"
    "find (\<lambda>c. stringify num_str c = stringify num_str a) (invoked st1) = Some b" "r = fn b"
    by blast
  from Cons.IH [OF s1(1) c2]
  obtain e2 where s2: "memo_inv num_str fn st2" "length rs1 = length rest"
    "invoked st2 = invoked st1 @ e2" "set e2 \<subseteq> set rest"
    "\<forall>i < length rest. \<exists>b.
       find (\<lambda>c. stringify num_str c = stringify num_str (rest ! i)) (invoked st2) = Some b
       \<and> rs1 ! i = fn b"
    by blast
  have ext: "invoked st2 = invoked st @ (e1 @ e2)" "set (e1 @ e2) \<subseteq> set (a # rest)"
    using s1(2,3) s2(3,4) by auto
  have hd: "find (\<lambda>c. stringify num_str c = stringify num_str a) (invoked st2) = Some b"
    using s1(4) s2(3) by (simp add: find_append_Some)
  have all: "\<exists>b. find (\<lambda>c. stringify num_str c = stringify num_str ((a # rest) ! i))
                    (invoked st2) = Some b \<and> (r # rs1) ! i = fn b"
    if "i < length (a # rest)" for i
  proof (cases i)
    case 0
    then show ?thesis using hd s1(5) by simp
  next
    case (Suc j)
    then show ?thesis using s2(5) that by simp
  qed
  have e: "\<exists>ext. invoked st' = invoked st @ ext \<and> set ext \<subseteq> set (a # rest)"
    using ext res by blast
  have len: "length rs = length (a # rest)" using s2(2) res by simp
  show ?case using s2(1) e len all res by simp
qed

lemma count_one: "distinct xs \<Longrightarrow> a \<in> set xs \<Longrightarrow> count_list xs a = 1"
  by (induction xs) auto

text \<open>
  C1. For every pure function \<open>fn\<close> and every argument list \<open>a\<close>: in any sequence of calls
  of the wrapper of \<open>_.memoize(fn)\<close> that calls it with \<open>a\<close>, once, twice or more often,
  among calls with other argument lists of other keys, \<open>fn\<close> is invoked exactly once
  with \<open>a\<close>, the result of that invocation is what the cache holds for the key of \<open>a\<close>,
  and every call with \<open>a\<close> returns it.
\<close>

theorem memoize_computes_once:
  assumes "a \<in> set cs"
    and "\<forall>c \<in> set cs. stringify num_str c = stringify num_str a \<longrightarrow> c = a"
    and "memo_calls num_str fn cs (memoize fn) = (rs, st)"
  shows "count_list (invoked st) a = 1
         \<and> cache st (stringify num_str a) = Some (fn a)
         \<and> length rs = length cs
         \<and> (\<forall>i < length cs. cs ! i = a \<longrightarrow> rs ! i = fn a)"
proof -
  from memo_calls_inv [OF memo_inv_init assms(3)]
  obtain ext where inv: "memo_inv num_str fn st" and len: "length rs = length cs"
    and ext: "invoked st = invoked (memoize fn) @ ext" "set ext \<subseteq> set cs"
    and res: "\<forall>i < length cs. \<exists>b.
               find (\<lambda>c. stringify num_str c = stringify num_str (cs ! i)) (invoked st) = Some b
               \<and> rs ! i = fn b"
    by blast
  have sub: "set (invoked st) \<subseteq> set cs" using ext by (simp add: memoize_def)
  have only: "b = a"
    if "find (\<lambda>c. stringify num_str c = stringify num_str a) (invoked st) = Some b" for b
  proof -
    from that have "b \<in> set (invoked st)" "stringify num_str b = stringify num_str a"
      by (auto simp: find_Some_iff)
    then show ?thesis using sub assms(2) by blast
  qed
  obtain i where i: "i < length cs" "cs ! i = a"
    using assms(1) by (auto simp: in_set_conv_nth)
  then obtain b where "find (\<lambda>c. stringify num_str c = stringify num_str a) (invoked st) = Some b"
    using res by force
  then have found: "find (\<lambda>c. stringify num_str c = stringify num_str a) (invoked st) = Some a"
    using only by blast
  then have mem: "a \<in> set (invoked st)" by (auto simp: find_Some_iff)
  have "distinct (invoked st)"
    using inv by (auto simp: memo_inv_def distinct_map)
  then have one: "count_list (invoked st) a = 1" using mem by (rule count_one)
  have cached: "cache st (stringify num_str a) = Some (fn a)"
    using inv found by (simp add: memo_inv_def)
  have ret: "rs ! j = fn a" if "j < length cs" "cs ! j = a" for j
  proof -
    from res that obtain b where
      "find (\<lambda>c. stringify num_str c = stringify num_str a) (invoked st) = Some b"
      "rs ! j = fn b" by force
    then show ?thesis using found by simp
  qed
  show ?thesis using one cached len ret by blast
qed

lemma key_20: "stringify int_str [JNum (Fin 20)] = ''[20]''"
  by code_simp

lemma key_3: "stringify int_str [JNum (Fin 3)] = ''[3]''"
  by code_simp

theorem memoize_computes_once_witness:
  "fst (memo_calls int_str JArr [[JNum (Fin 20)], [JNum (Fin 3)], [JNum (Fin 20)]]
          (memoize JArr))
     = [JArr [JNum (Fin 20)], JArr [JNum (Fin 3)], JArr [JNum (Fin 20)]]
   \<and> invoked (snd (memo_calls int_str JArr
                     [[JNum (Fin 20)], [JNum (Fin 3)], [JNum (Fin 20)]] (memoize JArr)))
     = [[JNum (Fin 20)], [JNum (Fin 3)]]
   \<and> count_list (invoked (snd (memo_calls int_str JArr
                     [[JNum (Fin 20)], [JNum (Fin 3)], [JNum (Fin 20)]] (memoize JArr))))
        [JNum (Fin 20)] = 1"
proof -
  let ?cs = "[[JNum (Fin 20)], [JNum (Fin 3)], [JNum (Fin 20)]]"
  let ?run = "memo_calls int_str JArr ?cs (memoize JArr)"
  have run: "fst ?run = [JArr [JNum (Fin 20)], JArr [JNum (Fin 3)], JArr [JNum (Fin 20)]]"
    "invoked (snd ?run) = [[JNum (Fin 20)], [JNum (Fin 3)]]"
    by (simp_all add: memo_call_def memoize_def key_20 key_3 Let_def)
  have a: "[JNum (Fin 20)] \<in> set ?cs" by simp
  have nc: "\<forall>c \<in> set ?cs.
      stringify int_str c = stringify int_str [JNum (Fin 20)] \<longrightarrow> c = [JNum (Fin 20)]"
    by (simp add: key_20 key_3)
  have "count_list (invoked (snd ?run)) [JNum (Fin 20)] = 1"
    using memoize_computes_once [OF a nc, of JArr "fst ?run" "snd ?run"] by simp
  then show ?thesis using run by simp
qed

section \<open>Cache keys\<close>

lemma hex_value_digit: "d < 16 \<Longrightarrow> hex_value (hex_digit d) = d"
  by (simp add: hex_value_def hex_digit_def Let_def)

lemma char_of_parts: "char_of (16 * ((of_char c :: nat) div 16) + of_char c mod 16) = c"
  by simp

lemma unescape_escape: "unescape (escape_char c @ x) = Some (c, x)"
proof (cases "(of_char c :: nat) < 32")
  case True
  then have "(of_char c :: nat) div 16 < 16" "(of_char c :: nat) mod 16 < 16" by simp_all
  then show ?thesis
    using True by (simp add: escape_char_def backslash_def dquote_def hex_value_digit)
next
  case False
  then show ?thesis
    by (auto simp: escape_char_def backslash_def dquote_def)
qed

lemma escape_prefix:
  assumes "escape_char c @ x = escape_char c' @ y"
  shows "c = c' \<and> x = y"
proof -
  have "unescape (escape_char c @ x) = unescape (escape_char c' @ y)"
    using assms by simp
  then show ?thesis by (simp add: unescape_escape)
qed

lemma escape_head: "\<exists>a t. escape_char c = a # t \<and> a \<noteq> dquote"
  by (auto simp: escape_char_def backslash_def dquote_def)

lemma escaped_inj:
  assumes "concat (map escape_char s) @ dquote # r = concat (map escape_char s') @ dquote # r'"
  shows "s = s' \<and> r = r'"
  using assms
proof (induction s arbitrary: s')
  case Nil
  show ?case
  proof (cases s')
    case Nil
    then show ?thesis using Nil.prems by simp
  next
    case (Cons c' t')
    obtain a t where "escape_char c' = a # t" "a \<noteq> dquote"
      using escape_head by blast
    then show ?thesis using Nil.prems Cons by simp
  qed
next
  case (Cons c t)
  show ?case
  proof (cases s')
    case Nil
    obtain a u where "escape_char c = a # u" "a \<noteq> dquote"
      using escape_head by blast
    then show ?thesis using Cons.prems Nil by simp
  next
    case (Cons c' t')
    have "escape_char c @ (concat (map escape_char t) @ dquote # r)
          = escape_char c' @ (concat (map escape_char t') @ dquote # r')"
      using Cons.prems Cons by simp
    then have "c = c'"
      "concat (map escape_char t) @ dquote # r = concat (map escape_char t') @ dquote # r'"
      using escape_prefix by blast+
    then show ?thesis using Cons.IH Cons by simp
  qed
qed

lemma quote_inj: "quote s @ r = quote s' @ r' \<Longrightarrow> s = s' \<and> r = r'"
  using escaped_inj [of s r s' r'] by (simp add: quote_def)

lemma num_text_decodes:
  assumes "xs @ r = ys @ r'" and "list_all num_char xs" and "list_all num_char ys"
    and "closing r" and "closing r'"
  shows "xs = ys \<and> r = r'"
  using assms
proof (induction xs arbitrary: ys)
  case Nil
  then show ?case
    by (cases ys) (auto simp: closing_def num_char_def)
next
  case (Cons x xs)
  show ?case
  proof (cases ys)
    case Nil
    then show ?thesis using Cons.prems by (auto simp: closing_def num_char_def)
  next
    case (Cons y ys')
    then show ?thesis using Cons.prems Cons.IH [of ys'] by simp
  qed
qed

lemma join_Cons: "join (s # ss) = s @ (if ss = [] then [] else CHR '','' # join ss)"
  by (cases ss) simp_all

lemma join_decodes:
  assumes "\<And>x y R R'. x \<in> set xs \<Longrightarrow> y \<in> set ys \<Longrightarrow> closing R \<Longrightarrow> closing R' \<Longrightarrow>
             f x @ R = f y @ R' \<Longrightarrow> x = y \<and> R = R'"
    and "\<And>y. y \<in> set xs \<union> set ys \<Longrightarrow> \<exists>a t. f y = a # t \<and> a \<noteq> cl"
    and "cl \<in> set '']}''"
    and "join (map f xs) @ cl # r = join (map f ys) @ cl # r'"
  shows "xs = ys \<and> r = r'"
  using assms
proof (induction xs arbitrary: ys)
  case Nil
  show ?case
  proof (cases ys)
    case Nil
    then show ?thesis using Nil.prems(4) by simp
  next
    case (Cons y ys')
    obtain a t where "f y = a # t" "a \<noteq> cl" using Nil.prems(2) [of y] Cons by auto
    then show ?thesis using Nil.prems(4) Cons by (simp add: join_Cons)
  qed
next
  case (Cons x xs')
  show ?case
  proof (cases ys)
    case Nil
    obtain a t where "f x = a # t" "a \<noteq> cl" using Cons.prems(2) [of x] by auto
    then show ?thesis using Cons.prems(4) Nil by (simp add: join_Cons)
  next
    case ys: (Cons y ys')
    let ?R = "(if map f xs' = [] then [] else CHR '','' # join (map f xs')) @ cl # r"
    let ?R' = "(if map f ys' = [] then [] else CHR '','' # join (map f ys')) @ cl # r'"
    have c: "closing ?R" "closing ?R'"
      using Cons.prems(3) by (auto simp: closing_def)
    have "f x @ ?R = f y @ ?R'"
      using Cons.prems(4) ys by (simp add: join_Cons)
    then have xy: "x = y" and R: "?R = ?R'"
      using Cons.prems(1) [of x y ?R ?R'] c ys by auto
    show ?thesis
    proof (cases "xs' = []")
      case True
      then show ?thesis using R xy ys Cons.prems(3) by (cases "ys' = []") auto
    next
      case False
      then have ne: "ys' \<noteq> []" using R Cons.prems(3) by (cases "ys' = []") auto
      have eq: "join (map f xs') @ cl # r = join (map f ys') @ cl # r'"
        using R False ne by simp
      have "xs' = ys' \<and> r = r'"
      proof (rule Cons.IH [OF _ _ Cons.prems(3) eq])
        fix x' y' R R'
        assume "x' \<in> set xs'" "y' \<in> set ys'" "closing R" "closing R'" "f x' @ R = f y' @ R'"
        then show "x' = y' \<and> R = R'" using Cons.prems(1) [of x' y' R R'] ys by simp
      next
        fix y' assume "y' \<in> set xs' \<union> set ys'"
        then show "\<exists>a t. f y' = a # t \<and> a \<noteq> cl" using Cons.prems(2) [of y'] ys by auto
      qed
      then show ?thesis using xy ys by simp
    qed
  qed
qed

lemma serialize_None: "serialize ns v = None \<longleftrightarrow> v = JUndef \<or> (\<exists>f. v = JFun f)"
  by (cases v) simp_all

lemma text_of_fun:
  "(\<lambda>x. case serialize ns x of None \<Rightarrow> ''null'' | Some s \<Rightarrow> s) = text_of ns"
  by (rule ext) (simp add: text_of_def)

lemma text_of_array:
  "text_of ns (JArr xs) = CHR ''['' # join (map (text_of ns) xs) @ '']''"
  by (subst text_of_def) (simp add: text_of_fun)

lemma text_of_simps:
  "text_of ns JNull = ''null''"
  "text_of ns (JBool b) = (if b then ''true'' else ''false'')"
  "text_of ns (JNum (Fin q)) = ns q"
  "text_of ns (JStr s) = quote s"
  by (simp_all add: text_of_def)

lemma members_text:
  assumes "list_all json_value (map snd own)"
  shows "concat (map (\<lambda>(k, v). case serialize ns v of
                       None \<Rightarrow> [] | Some s \<Rightarrow> [quote k @ '':'' @ s]) own)
         = map (\<lambda>(k, v). quote k @ CHR '':'' # text_of ns v) own"
  using assms
proof (induction own)
  case Nil
  then show ?case by simp
next
  case (Cons p own)
  obtain k v where p: "p = (k, v)" by (cases p)
  have "json_value v" using Cons.prems p by simp
  then obtain s where "serialize ns v = Some s"
    using serialize_None [of ns v] by (cases "serialize ns v") auto
  then show ?case using Cons p by (simp add: text_of_def)
qed

lemma text_of_object:
  assumes "list_all json_value (map snd own)"
  shows "text_of ns (JObj own inh)
         = CHR ''{'' # join (map (\<lambda>(k, v). quote k @ CHR '':'' # text_of ns v) own) @ ''}''"
  using members_text [OF assms, of ns] by (simp add: text_of_def)

lemma text_head:
  assumes "json_value v" and "set (numbers v) \<subseteq> N"
    and "\<forall>q \<in> N. ns q \<noteq> [] \<and> list_all num_char (ns q)"
  shows "\<exists>a t. text_of ns v = a # t \<and> a \<notin> set '',]}''"
proof (cases v)
  case (JNum n)
  then obtain q where q: "n = Fin q" using assms(1) by (cases n) auto
  then have "q \<in> N" using assms(2) JNum by simp
  then obtain a t where "ns q = a # t" "num_char a"
    using assms(3) by (cases "ns q") auto
  then show ?thesis using JNum q by (auto simp: text_of_simps num_char_def)
next
  case (JObj own inh)
  then show ?thesis using assms(1) by (simp add: text_of_object)
qed (use assms(1) in \<open>auto simp: text_of_simps text_of_array quote_def dquote_def\<close>)

lemma head_kind:
  assumes "json_value v" and "set (numbers v) \<subseteq> N"
    and "\<forall>q \<in> N. ns q \<noteq> [] \<and> list_all num_char (ns q)"
    and "text_of ns v = a # t"
  shows "(a = CHR ''n'' \<longrightarrow> v = JNull) \<and> (a = CHR ''t'' \<longrightarrow> v = JBool True)
         \<and> (a = CHR ''f'' \<longrightarrow> v = JBool False) \<and> (a = dquote \<longrightarrow> (\<exists>s. v = JStr s))
         \<and> (a = CHR ''['' \<longrightarrow> (\<exists>xs. v = JArr xs))
         \<and> (a = CHR ''{'' \<longrightarrow> (\<exists>own. v = JObj own object_prototype))
         \<and> (num_char a \<longrightarrow> (\<exists>q. v = JNum (Fin q)))"
proof (cases v)
  case (JNum n)
  then obtain q where q: "n = Fin q" using assms(1) by (cases n) auto
  then have "q \<in> N" using assms(2) JNum by simp
  then have "list_all num_char (ns q)" using assms(3) by simp
  then have "num_char a" using assms(4) JNum q by (simp add: text_of_simps)
  then show ?thesis using JNum q by (auto simp: num_char_def dquote_def)
next
  case (JObj own inh)
  then show ?thesis
    using assms(1,4) by (auto simp: text_of_object num_char_def dquote_def)
next
  case (JBool b)
  then show ?thesis
    using assms(4) by (cases b) (auto simp: text_of_simps num_char_def dquote_def)
qed (use assms(1,4) in
      \<open>auto simp: text_of_simps text_of_array quote_def num_char_def dquote_def\<close>)

lemma numbers_member:
  "(k, x) \<in> set own \<Longrightarrow> set (numbers x) \<subseteq> set (numbers (JObj own inh))"
  by (induction own) auto

lemma value_member:
  "(k, x) \<in> set own \<Longrightarrow> list_all json_value (map snd own) \<Longrightarrow> json_value x"
  by (induction own) auto

lemma text_decodes:
  assumes nums: "\<forall>q \<in> N. ns q \<noteq> [] \<and> list_all num_char (ns q)" and inj: "inj_on ns N"
  shows "json_value v \<Longrightarrow> json_value v' \<Longrightarrow> set (numbers v) \<subseteq> N \<Longrightarrow> set (numbers v') \<subseteq> N \<Longrightarrow>
         closing r \<Longrightarrow> closing r' \<Longrightarrow> text_of ns v @ r = text_of ns v' @ r' \<Longrightarrow>
         v = v' \<and> r = r'"
proof (induction v arbitrary: v' r r')
  case JNull
  obtain a t where h: "text_of ns v' = a # t"
    using text_head [OF JNull.prems(2,4) nums] by blast
  then have "a = CHR ''n''" using JNull.prems(7) by (simp add: text_of_simps)
  then have "v' = JNull" using head_kind [OF JNull.prems(2,4) nums h] by simp
  then show ?case using JNull.prems(7) by (simp add: text_of_simps)
next
  case (JBool b)
  obtain a t where h: "text_of ns v' = a # t"
    using text_head [OF JBool.prems(2,4) nums] by blast
  then have "a = (if b then CHR ''t'' else CHR ''f'')"
    using JBool.prems(7) by (simp add: text_of_simps split: if_splits)
  then have "v' = JBool b" using head_kind [OF JBool.prems(2,4) nums h] by (cases b) simp_all
  then show ?case using JBool.prems(7) by (simp add: text_of_simps)
next
  case (JNum n)
  obtain q where q: "n = Fin q" using JNum.prems(1) by (cases n) auto
  then have qN: "q \<in> N" using JNum.prems(3) by simp
  then obtain a t where nq: "ns q = a # t" "num_char a"
    using nums by (cases "ns q") auto
  obtain a' t' where h: "text_of ns v' = a' # t'"
    using text_head [OF JNum.prems(2,4) nums] by blast
  then have "a' = a" using JNum.prems(7) q nq by (simp add: text_of_simps)
  then obtain q' where v': "v' = JNum (Fin q')"
    using head_kind [OF JNum.prems(2,4) nums h] nq(2) by blast
  then have q'N: "q' \<in> N" using JNum.prems(4) by simp
  have "ns q @ r = ns q' @ r'" using JNum.prems(7) q v' by (simp add: text_of_simps)
  then have "ns q = ns q' \<and> r = r'"
    using num_text_decodes [of "ns q" r "ns q'" r'] nums qN q'N JNum.prems(5,6) by blast
  then show ?case using inj qN q'N q v' by (auto dest: inj_onD)
next
  case (JStr s)
  obtain a t where h: "text_of ns v' = a # t"
    using text_head [OF JStr.prems(2,4) nums] by blast
  then have "a = dquote" using JStr.prems(7) by (simp add: text_of_simps quote_def)
  then obtain s' where v': "v' = JStr s'"
    using head_kind [OF JStr.prems(2,4) nums h] by blast
  then show ?case using JStr.prems(7) quote_inj [of s r s' r'] by (simp add: text_of_simps)
next
  case (JArr xs)
  obtain a t where h: "text_of ns v' = a # t"
    using text_head [OF JArr.prems(2,4) nums] by blast
  then have "a = CHR ''[''" using JArr.prems(7) by (simp add: text_of_array)
  then obtain ys where v': "v' = JArr ys"
    using head_kind [OF JArr.prems(2,4) nums h] by blast
  have eq: "join (map (text_of ns) xs) @ CHR '']'' # r
            = join (map (text_of ns) ys) @ CHR '']'' # r'"
    using JArr.prems(7) v' by (simp add: text_of_array)
  have "xs = ys \<and> r = r'"
  proof (rule join_decodes [OF _ _ _ eq])
    fix x y R R'
    assume a: "x \<in> set xs" "y \<in> set ys" "closing R" "closing R'"
      "text_of ns x @ R = text_of ns y @ R'"
    have "json_value x" "json_value y"
      using a(1,2) JArr.prems(1,2) v' by (auto simp: list_all_iff)
    moreover have "set (numbers x) \<subseteq> N" "set (numbers y) \<subseteq> N"
      using a(1,2) JArr.prems(3,4) v' by auto
    ultimately show "x = y \<and> R = R'" using JArr.IH [OF a(1)] a(3,4,5) by blast
  next
    fix y assume "y \<in> set xs \<union> set ys"
    then have "json_value y" "set (numbers y) \<subseteq> N"
      using JArr.prems(1,2,3,4) v' by (auto simp: list_all_iff)
    then obtain b u where "text_of ns y = b # u" "b \<notin> set '',]}''"
      using text_head [OF _ _ nums] by blast
    then show "\<exists>a t. text_of ns y = a # t \<and> a \<noteq> CHR '']''" by auto
  qed simp
  then show ?case using v' by simp
next
  case (JObj own inh)
  let ?m = "\<lambda>(k, v). quote k @ CHR '':'' # text_of ns v"
  have vals: "list_all json_value (map snd own)" and inh: "inh = object_prototype"
    using JObj.prems(1) by simp_all
  obtain a t where h: "text_of ns v' = a # t"
    using text_head [OF JObj.prems(2,4) nums] by blast
  then have "a = CHR ''{''" using JObj.prems(7) vals by (simp add: text_of_object)
  then obtain own' where v': "v' = JObj own' object_prototype"
    using head_kind [OF JObj.prems(2,4) nums h] by blast
  have vals': "list_all json_value (map snd own')" using JObj.prems(2) v' by simp
  have eq: "join (map ?m own) @ CHR ''}'' # r = join (map ?m own') @ CHR ''}'' # r'"
    using JObj.prems(7) v' vals vals' by (simp add: text_of_object)
  have "own = own' \<and> r = r'"
  proof (rule join_decodes [OF _ _ _ eq])
    fix p p' R R'
    assume a: "p \<in> set own" "p' \<in> set own'" "closing R" "closing R'" "?m p @ R = ?m p' @ R'"
    obtain k x where p: "p = (k, x)" by (cases p)
    obtain k' x' where p': "p' = (k', x')" by (cases p')
    have "quote k @ (CHR '':'' # text_of ns x @ R) = quote k' @ (CHR '':'' # text_of ns x' @ R')"
      using a(5) p p' by simp
    then have k: "k = k'" and t: "text_of ns x @ R = text_of ns x' @ R'"
      using quote_inj [of k "CHR '':'' # text_of ns x @ R" k' "CHR '':'' # text_of ns x' @ R'"]
      by simp_all
    have jx: "json_value x" using value_member [of k x own] a(1) p vals by simp
    have jx': "json_value x'" using value_member [of k' x' own'] a(2) p' vals' by simp
    have nx: "set (numbers x) \<subseteq> N"
      using numbers_member [of k x own inh] a(1) p JObj.prems(3) by blast
    have nx': "set (numbers x') \<subseteq> N"
      using numbers_member [of k' x' own' object_prototype] a(2) p' JObj.prems(4) v' by blast
    have sx: "x \<in> Basic_BNFs.snds p" using p by simp
    have "x = x' \<and> R = R'"
      by (rule JObj.IH(1) [OF a(1) sx jx jx' nx nx' a(3,4) t])
    then show "p = p' \<and> R = R'" using p p' k by simp
  next
    fix p assume "p \<in> set own \<union> set own'"
    obtain k x where "p = (k, x)" by (cases p)
    then show "\<exists>a t. ?m p = a # t \<and> a \<noteq> CHR ''}''" by (simp add: quote_def dquote_def)
  qed simp
  then show ?case using v' inh by simp
qed simp_all

lemma stringify_text: "stringify ns a = text_of ns (JArr a)"
  by (simp add: stringify_def text_of_def)

lemma number_texts_inj:
  assumes "number_texts ns qs"
  shows "(\<forall>q \<in> set qs. ns q \<noteq> [] \<and> list_all num_char (ns q)) \<and> inj_on ns (set qs)"
  using assms by (auto simp: number_texts_def list_all_iff inj_on_def)

text \<open>
  C8. As stated the claim fails: \<open>JSON.stringify\<close> writes \<open>undefined\<close> in an array as
  \<open>null\<close>, so the argument lists \<open>[null]\<close> and \<open>[undefined]\<close> have one key, and the second
  call is answered with the result computed for the first.
\<close>

theorem memoize_key_collision_counterexample:
  "[JNull] \<noteq> [JUndef]
   \<and> stringify int_str [JNull] = stringify int_str [JUndef]
   \<and> fst (memo_calls int_str JArr [[JNull], [JUndef]] (memoize JArr))
       = [JArr [JNull], JArr [JNull]]
   \<and> invoked (snd (memo_calls int_str JArr [[JNull], [JUndef]] (memoize JArr))) = [[JNull]]"
  by (simp add: stringify_def memo_call_def memoize_def Let_def)

text \<open>
  C8, amended. For every two argument lists \<open>a\<close> and \<open>b\<close> that are built from \<open>null\<close>,
  booleans, finite numbers, strings, arrays and plain objects and are not structurally
  equal, the cache keys that the wrapper of \<open>_.memoize\<close> derives from \<open>a\<close> and from \<open>b\<close>
  are distinct, so a call with \<open>a\<close> followed by a call with \<open>b\<close> invokes \<open>fn\<close> for each.
  This holds as long as \<open>Number.prototype.toString\<close> gives the numbers that occur in \<open>a\<close>
  and \<open>b\<close> non-empty texts of digits, signs, point and exponent mark, different for
  different numbers.
\<close>

theorem memoize_keys_distinct:
  assumes "list_all json_value a" and "list_all json_value b"
    and "number_texts num_str (concat (map numbers (a @ b)))"
    and "a \<noteq> b"
  shows "stringify num_str a \<noteq> stringify num_str b
         \<and> invoked (snd (memo_calls num_str fn [a, b] (memoize fn))) = [a, b]"
proof -
  let ?N = "set (concat (map numbers (a @ b)))"
  have nums: "\<forall>q \<in> ?N. num_str q \<noteq> [] \<and> list_all num_char (num_str q)"
    and inj: "inj_on num_str ?N"
    using number_texts_inj [OF assms(3)] by blast+
  have ja: "json_value (JArr a)" and jb: "json_value (JArr b)"
    using assms(1,2) by simp_all
  have na: "set (numbers (JArr a)) \<subseteq> ?N" and nb: "set (numbers (JArr b)) \<subseteq> ?N"
    by auto
  have c: "closing []" by (simp add: closing_def)
  have neq: "stringify num_str a \<noteq> stringify num_str b"
  proof
    assume "stringify num_str a = stringify num_str b"
    then have "text_of num_str (JArr a) @ [] = text_of num_str (JArr b) @ []"
      by (simp add: stringify_text)
    then have "JArr a = JArr b \<and> ([] :: string) = []"
      by (rule text_decodes [OF nums inj ja jb na nb c c])
    then show False using assms(4) by simp
  qed
  then have "invoked (snd (memo_calls num_str fn [a, b] (memoize fn))) = [a, b]"
    by (simp add: memo_call_def memoize_def Let_def)
  then show ?thesis using neq by simp
qed

theorem memoize_keys_distinct_witness:
  "stringify int_str [JNum (Fin 20)] \<noteq> stringify int_str [JNum (Fin 3)]
   \<and> stringify int_str [JStr ''1'', abc] \<noteq> stringify int_str [JNum (Fin 1), abc]
   \<and> invoked (snd (memo_calls int_str JArr [[JNum (Fin 20)], [JNum (Fin 3)]] (memoize JArr)))
       = [[JNum (Fin 20)], [JNum (Fin 3)]]"
proof -
  have n1: "number_texts int_str (concat (map numbers ([JNum (Fin 20)] @ [JNum (Fin 3)])))"
    by code_simp
  have n2: "number_texts int_str (concat (map numbers ([JStr ''1'', abc] @ [JNum (Fin 1), abc])))"
    by code_simp
  have j: "list_all json_value [JStr ''1'', abc]" "list_all json_value [JNum (Fin 1), abc]"
    by (simp_all add: abc_def)
  have "stringify int_str [JNum (Fin 20)] \<noteq> stringify int_str [JNum (Fin 3)]
        \<and> invoked (snd (memo_calls int_str JArr [[JNum (Fin 20)], [JNum (Fin 3)]]
                           (memoize JArr)))
           = [[JNum (Fin 20)], [JNum (Fin 3)]]"
    using n1 by (intro memoize_keys_distinct) simp_all
  moreover have "stringify int_str [JStr ''1'', abc] \<noteq> stringify int_str [JNum (Fin 1), abc]"
    using memoize_keys_distinct [OF j n2, of JArr] by simp
  ultimately show ?thesis by simp
qed

end
